theory Spec2Isabelle
  imports Main
begin

section \<open>The testbench driver \<open>tb_driver.cpp\<close>\<close>

text \<open>
  \<open>main\<close> owns three objects: the run context \<open>contextp\<close> (simulated time and the
  finish flag), the design \<open>top\<close> (its clock input \<open>clk\<close> and all its other signals)
  and the waveform writer \<open>tfp\<close>. Their classes come from the simulation library and
  from generated code; the driver only calls them. The design's \<open>eval\<close> is therefore a
  parameter of every definition below, and what the driver does to the other two objects
  is kept as a record of its calls. Console output and the release of memory are left
  out.
\<close>

subsection \<open>State and effects\<close>

text \<open>
  Every call the driver makes on one of its collaborators is recorded, in program order:
  \<open>top->trace(tfp, 99)\<close>, \<open>tfp->open(name)\<close>, \<open>contextp->timeInc(add)\<close>, the assignment
  to \<open>top->clk\<close>, \<open>top->eval()\<close>, \<open>tfp->dump(t)\<close> and \<open>tfp->close()\<close>.
  \<open>Dump t c d\<close> is the sample written by \<open>tfp->dump(t)\<close>: the time stamp, the clock
  input and the other signals of the design as they are when the call is made.
\<close>

datatype 's call =
    Trace nat
  | Open string
  | TimeInc nat
  | ClkWrite bool
  | Eval
  | Dump nat bool 's
  | Close

text \<open>
  Modelled from the spec: the type of the time counter, which is declared in
  \<open>verilated.h\<close>, a library header that is not among the sources. The spec's data model
  makes VirtualTime an integer counter, so \<open>time\<close> is a natural number and \<open>timeInc\<close>
  is plain addition. (On a counter of fixed width the statements about \<open>time\<close> below
  hold up to the first wrap-around.)
\<close>

record 's sim =
  time :: nat
  gotFinish :: bool
  clk :: bool
  signals :: 's
  calls :: "'s call list"

text \<open>
  Modelled from the spec: the interface of the design's \<open>eval\<close>, whose class is generated
  code that is not among the sources. It is a function of what the design can read: the
  time, the finish flag, the clock input and the other signals, in this order. When it
  returns it has settled the signals and left the finish flag at some value. \<open>None\<close> is
  an evaluation that does not return: the process ends inside it (a fatal abort). The
  spec gives simulated time and the clock input no writer but the driver, so \<open>eval\<close>
  returns neither.
\<close>

type_synonym 's model = "nat \<Rightarrow> bool \<Rightarrow> bool \<Rightarrow> 's \<Rightarrow> (bool \<times> 's) option"

text \<open>
  How a run of the process ends. \<open>Exited rc s\<close>: \<open>main\<close> returned \<open>rc\<close> in state \<open>s\<close>.
  \<open>Aborted s\<close>: the process ended inside \<open>eval\<close>, in state \<open>s\<close>. A run that never ends
  has no outcome (\<open>None\<close> below).
\<close>

datatype 's outcome = Exited int "'s sim" | Aborted "'s sim"

subsection \<open>The statements of the driver\<close>

definition vcd_trace :: "nat \<Rightarrow> 's sim \<Rightarrow> 's sim" where
  "vcd_trace levels s = s\<lparr>calls := calls s @ [Trace levels]\<rparr>"

definition vcd_open :: "string \<Rightarrow> 's sim \<Rightarrow> 's sim" where
  "vcd_open name s = s\<lparr>calls := calls s @ [Open name]\<rparr>"

definition timeInc :: "nat \<Rightarrow> 's sim \<Rightarrow> 's sim" where
  "timeInc add s = s\<lparr>time := time s + add, calls := calls s @ [TimeInc add]\<rparr>"

definition toggle_clk :: "'s sim \<Rightarrow> 's sim" where
  "toggle_clk s = s\<lparr>clk := \<not> clk s, calls := calls s @ [ClkWrite (\<not> clk s)]\<rparr>"

definition top_eval :: "'s model \<Rightarrow> 's sim \<Rightarrow> 's sim + 's sim" where
  "top_eval m s =
     (let s' = s\<lparr>calls := calls s @ [Eval]\<rparr> in
      case m (time s) (gotFinish s) (clk s) (signals s) of
        None \<Rightarrow> Inl s'
      | Some (fin, sigs) \<Rightarrow> Inr (s'\<lparr>gotFinish := fin, signals := sigs\<rparr>))"

definition dump :: "nat \<Rightarrow> 's sim \<Rightarrow> 's sim" where
  "dump t s = s\<lparr>calls := calls s @ [Dump t (clk s) (signals s)]\<rparr>"

definition vcd_close :: "'s sim \<Rightarrow> 's sim" where
  "vcd_close s = s\<lparr>calls := calls s @ [Close]\<rparr>"

subsection \<open>The simulation loop and \<open>main\<close>\<close>

text \<open>The body of the \<open>while\<close> loop, lines 26 to 38: eight statements.\<close>

definition loop_body :: "'s model \<Rightarrow> 's sim \<Rightarrow> 's sim + 's sim" where
  "loop_body m s =
     (let s1 = timeInc 5 s;
          s2 = toggle_clk s1
      in case top_eval m s2 of
           Inl a \<Rightarrow> Inl a
         | Inr s3 \<Rightarrow>
            (let s4 = dump (time s3) s3;
                 s5 = timeInc 5 s4;
                 s6 = toggle_clk s5
             in case top_eval m s6 of
                  Inl a \<Rightarrow> Inl a
                | Inr s7 \<Rightarrow> Inr (dump (time s7) s7)))"

text \<open>
  The loop of line 23. It has no bound of its own: \<open>None\<close> is the run that never leaves
  it. \<open>Some (Inr s)\<close> is the exit through the loop test, \<open>Some (Inl a)\<close> an evaluation
  that did not return.
\<close>

partial_function (option) sim_loop :: "'s model \<Rightarrow> 's sim \<Rightarrow> ('s sim + 's sim) option" where
  "sim_loop m s =
     (if gotFinish s then Some (Inr s)
      else case loop_body m s of
             Inl a \<Rightarrow> Some (Inl a)
           | Inr s' \<Rightarrow> sim_loop m s')"

declare sim_loop.simps [code]

text \<open>
  Modelled from the spec: the constructors of the run context and of the design, which
  are library and generated code. The spec starts VirtualTime at 0; \<open>fin0\<close> is the
  finish flag, \<open>clk0\<close> the clock input and \<open>sig0\<close> the other signals as the constructors
  leave them. \<open>startup\<close> is the state in which the loop is entered, after lines 9 to 18.
\<close>

definition startup :: "bool \<Rightarrow> bool \<Rightarrow> 's \<Rightarrow> 's sim" where
  "startup fin0 clk0 sig0 =
     vcd_open ''pim_system_tb.vcd''
       (vcd_trace 99 \<lparr>time = 0, gotFinish = fin0, clk = clk0, signals = sig0, calls = []\<rparr>)"

definition main :: "'s model \<Rightarrow> bool \<Rightarrow> bool \<Rightarrow> 's \<Rightarrow> 's outcome option" where
  "main m fin0 clk0 sig0 =
     (case sim_loop m (startup fin0 clk0 sig0) of
        None \<Rightarrow> None
      | Some (Inl a) \<Rightarrow> Some (Aborted a)
      | Some (Inr s) \<Rightarrow> Some (Exited 0 (vcd_close s)))"

subsection \<open>Half-cycles, iterations and what a run records\<close>

text \<open>
  The definitions of this subsection are not functions of the driver; they are the
  vocabulary of the properties. One half-cycle is four statements: lines 26 to 32, and
  again lines 35 to 38. The loop body is two of them (\<open>loop_body_half\<close> below).
  \<open>half_cycles m n s\<close> and \<open>cycles m n s\<close> run \<open>n\<close> half-cycles and \<open>n\<close> loop bodies from
  \<open>s\<close>, without the loop test; the first evaluation that does not return ends them.
\<close>

definition half_cycle :: "'s model \<Rightarrow> 's sim \<Rightarrow> 's sim + 's sim" where
  "half_cycle m s =
     (case top_eval m (toggle_clk (timeInc 5 s)) of
        Inl a \<Rightarrow> Inl a
      | Inr s' \<Rightarrow> Inr (dump (time s') s'))"

primrec half_cycles :: "'s model \<Rightarrow> nat \<Rightarrow> 's sim \<Rightarrow> 's sim + 's sim" where
  "half_cycles m 0 s = Inr s"
| "half_cycles m (Suc n) s =
     (case half_cycles m n s of Inl a \<Rightarrow> Inl a | Inr s' \<Rightarrow> half_cycle m s')"

primrec cycles :: "'s model \<Rightarrow> nat \<Rightarrow> 's sim \<Rightarrow> 's sim + 's sim" where
  "cycles m 0 s = Inr s"
| "cycles m (Suc n) s =
     (case cycles m n s of Inl a \<Rightarrow> Inl a | Inr s' \<Rightarrow> loop_body m s')"

text \<open>
  What a record of calls shows: the kind of each call without its arguments, how many
  calls of a kind there are, and the samples written, oldest first, with their time
  stamps and clock values. \<open>half_kinds\<close> are the kinds of the calls of one half-cycle.
\<close>

datatype kind = KTrace | KOpen | KTimeInc | KClkWrite | KEval | KDump | KClose

fun kind_of :: "'s call \<Rightarrow> kind" where
  "kind_of (Trace _) = KTrace"
| "kind_of (Open _) = KOpen"
| "kind_of (TimeInc _) = KTimeInc"
| "kind_of (ClkWrite _) = KClkWrite"
| "kind_of Eval = KEval"
| "kind_of (Dump _ _ _) = KDump"
| "kind_of Close = KClose"

definition count_kind :: "kind \<Rightarrow> 's call list \<Rightarrow> nat" where
  "count_kind k cs = length (filter (\<lambda>c. kind_of c = k) cs)"

fun sample_of :: "'s call \<Rightarrow> (nat \<times> bool \<times> 's) list" where
  "sample_of (Dump t c d) = [(t, c, d)]"
| "sample_of _ = []"

definition samples :: "'s call list \<Rightarrow> (nat \<times> bool \<times> 's) list" where
  "samples cs = concat (map sample_of cs)"

definition stamps :: "'s call list \<Rightarrow> nat list" where
  "stamps cs = map fst (samples cs)"

definition clocks :: "'s call list \<Rightarrow> bool list" where
  "clocks cs = map (\<lambda>x. fst (snd x)) (samples cs)"

definition half_kinds :: "kind list" where
  "half_kinds = [KTimeInc, KClkWrite, KEval, KDump]"

text \<open>
  \<open>stops_at m s r n t\<close>: the loop entered in \<open>s\<close> ends with result \<open>r\<close> after \<open>n\<close> whole
  iterations, \<open>t\<close> being the state they lead to and the first one in which the loop
  test is met or the body does not return.
\<close>

definition stops_at :: "'s model \<Rightarrow> 's sim \<Rightarrow> ('s sim + 's sim) \<Rightarrow> nat \<Rightarrow> 's sim \<Rightarrow> bool" where
  "stops_at m s r n t \<longleftrightarrow>
     cycles m n s = Inr t \<and>
     (\<forall>k u. k < n \<longrightarrow> cycles m k s = Inr u \<longrightarrow> \<not> gotFinish u) \<and>
     (case r of Inr s' \<Rightarrow> s' = t \<and> gotFinish t
              | Inl a \<Rightarrow> \<not> gotFinish t \<and> loop_body m t = Inl a)"

text \<open>
  Three designs to run the driver on. Their only signal is a count of the evaluations
  made so far. \<open>finish_on k\<close> raises the finish flag in its \<open>k\<close>-th evaluation and
  keeps it raised, \<open>free_running\<close> never raises it, \<open>fatal_on k\<close> does not return from its \<open>k\<close>-th
  evaluation.
\<close>

definition finish_on :: "nat \<Rightarrow> nat model" where
  "finish_on k t fin c d = Some (k \<le> Suc d, Suc d)"

definition free_running :: "nat model" where
  "free_running t fin c d = Some (False, Suc d)"

definition fatal_on :: "nat \<Rightarrow> nat model" where
  "fatal_on k t fin c d = (if k \<le> Suc d then None else Some (False, Suc d))"

section \<open>Properties\<close>

subsection \<open>Auxiliary facts\<close>

lemma loop_body_half:
  "loop_body m s = (case half_cycle m s of Inl a \<Rightarrow> Inl a | Inr s' \<Rightarrow> half_cycle m s')"
  by (simp add: loop_body_def half_cycle_def Let_def split: sum.splits)

lemma samples_append [simp]: "samples (xs @ ys) = samples xs @ samples ys"
  by (simp add: samples_def)

lemma stamps_append [simp]: "stamps (xs @ ys) = stamps xs @ stamps ys"
  by (simp add: stamps_def)

lemma clocks_append [simp]: "clocks (xs @ ys) = clocks xs @ clocks ys"
  by (simp add: clocks_def)

lemma count_kind_append [simp]: "count_kind k (xs @ ys) = count_kind k xs + count_kind k ys"
  by (simp add: count_kind_def)

lemma half_cycle_Inr:
  assumes "half_cycle m s = Inr s'"
  shows "time s' = time s + 5"
    and "clk s' = (\<not> clk s)"
    and "calls s' = calls s @ [TimeInc 5, ClkWrite (\<not> clk s), Eval,
                                Dump (time s + 5) (\<not> clk s) (signals s')]"
    and "m (time s + 5) (gotFinish s) (\<not> clk s) (signals s) = Some (gotFinish s', signals s')"
  using assms
  by (auto simp: half_cycle_def top_eval_def toggle_clk_def timeInc_def dump_def Let_def
      split: sum.splits option.splits prod.splits)

lemma half_cycle_Inl:
  assumes "half_cycle m s = Inl a"
  shows "time a = time s + 5"
    and "clk a = (\<not> clk s)"
    and "calls a = calls s @ [TimeInc 5, ClkWrite (\<not> clk s), Eval]"
    and "m (time s + 5) (gotFinish s) (\<not> clk s) (signals s) = None"
    and "signals a = signals s" and "gotFinish a = gotFinish s"
  using assms
  by (auto simp: half_cycle_def top_eval_def toggle_clk_def timeInc_def dump_def Let_def
      split: sum.splits option.splits prod.splits)

lemma half_cycles_add:
  "half_cycles m (j + k) s =
     (case half_cycles m j s of Inl a \<Rightarrow> Inl a | Inr s' \<Rightarrow> half_cycles m k s')"
  by (induction k) (auto split: sum.splits)

lemma cycles_add:
  "cycles m (j + k) s =
     (case cycles m j s of Inl a \<Rightarrow> Inl a | Inr s' \<Rightarrow> cycles m k s')"
  by (induction k) (auto split: sum.splits)

lemma cycles_half_cycles: "cycles m n s = half_cycles m (2 * n) s"
  by (induction n) (auto simp: loop_body_half split: sum.splits)

lemma cycles_Suc_front:
  "cycles m (Suc n) s = (case loop_body m s of Inl a \<Rightarrow> Inl a | Inr s' \<Rightarrow> cycles m n s')"
  using cycles_add [of m 1 n s] by simp

lemma half_cycles_prefix:
  "half_cycles m n s = Inr s' \<Longrightarrow> k \<le> n \<Longrightarrow> \<exists>t. half_cycles m k s = Inr t"
  using half_cycles_add [of m k "n - k" s] by (auto split: sum.splits)

lemma half_cycles_time:
  "half_cycles m n s = Inr s' \<Longrightarrow> time s' = time s + 5 * n"
  by (induction n arbitrary: s') (auto split: sum.splits dest: half_cycle_Inr(1))

lemma half_cycles_clk:
  "half_cycles m n s = Inr s' \<Longrightarrow> clk s' = (if even n then clk s else \<not> clk s)"
  by (induction n arbitrary: s') (auto split: sum.splits dest: half_cycle_Inr(2))

lemma concat_replicate_Suc: "concat (replicate (Suc n) xs) = concat (replicate n xs) @ xs"
  by (induction n) auto

lemma half_cycles_kinds:
  "half_cycles m n s = Inr s' \<Longrightarrow>
     map kind_of (calls s') = map kind_of (calls s) @ concat (replicate n half_kinds)"
proof (induction n arbitrary: s')
  case 0
  then show ?case by simp
next
  case (Suc n)
  then obtain t where t: "half_cycles m n s = Inr t" and h: "half_cycle m t = Inr s'"
    by (auto split: sum.splits)
  have "concat (replicate (Suc n) half_kinds) = concat (replicate n half_kinds) @ half_kinds"
    by (rule concat_replicate_Suc)
  with Suc.IH [OF t] half_cycle_Inr(3) [OF h] show ?case
    by (simp add: half_kinds_def)
qed

lemma half_cycles_stamps:
  "half_cycles m n s = Inr s' \<Longrightarrow>
     stamps (calls s') = stamps (calls s) @ map (\<lambda>i. time s + 5 * Suc i) [0..<n]"
proof (induction n arbitrary: s')
  case 0
  then show ?case by simp
next
  case (Suc n)
  then obtain t where t: "half_cycles m n s = Inr t" and h: "half_cycle m t = Inr s'"
    by (auto split: sum.splits)
  from Suc.IH [OF t] half_cycle_Inr(3) [OF h] half_cycles_time [OF t] show ?case
    by (simp add: stamps_def samples_def)
qed

lemma half_cycles_clocks:
  "half_cycles m n s = Inr s' \<Longrightarrow>
     clocks (calls s') = clocks (calls s) @ map (\<lambda>i. even i \<noteq> clk s) [0..<n]"
proof (induction n arbitrary: s')
  case 0
  then show ?case by simp
next
  case (Suc n)
  then obtain t where t: "half_cycles m n s = Inr t" and h: "half_cycle m t = Inr s'"
    by (auto split: sum.splits)
  from Suc.IH [OF t] half_cycle_Inr(3) [OF h] half_cycles_clk [OF t] show ?case
    by (simp add: clocks_def samples_def)
qed

lemma sim_loop_exit:
  "cycles m n s = Inr s' \<Longrightarrow> gotFinish s' \<Longrightarrow>
   (\<And>k t. k < n \<Longrightarrow> cycles m k s = Inr t \<Longrightarrow> \<not> gotFinish t) \<Longrightarrow>
   sim_loop m s = Some (Inr s')"
proof (induction n arbitrary: s)
  case 0
  then show ?case by (simp add: sim_loop.simps)
next
  case (Suc n)
  from Suc.prems(3) [of 0 s] have nf: "\<not> gotFinish s" by simp
  from Suc.prems(1) obtain t where b: "loop_body m s = Inr t" and c: "cycles m n t = Inr s'"
    by (auto simp: cycles_Suc_front simp del: cycles.simps split: sum.splits)
  have "sim_loop m t = Some (Inr s')"
  proof (rule Suc.IH [OF c Suc.prems(2)])
    fix k u assume "k < n" "cycles m k t = Inr u"
    with Suc.prems(3) [of "Suc k" u] b show "\<not> gotFinish u"
      by (simp add: cycles_Suc_front del: cycles.simps)
  qed
  with nf b show ?case by (subst sim_loop.simps) simp
qed

lemma stops_at_now:
  "gotFinish s \<Longrightarrow> stops_at m s (Inr s) 0 s"
  "\<not> gotFinish s \<Longrightarrow> loop_body m s = Inl a \<Longrightarrow> stops_at m s (Inl a) 0 s"
  by (simp_all add: stops_at_def)

lemma stops_at_later:
  assumes nf: "\<not> gotFinish s" and b: "loop_body m s = Inr v" and st: "stops_at m v r n t"
  shows "stops_at m s r (Suc n) t"
proof -
  from st have c: "cycles m n v = Inr t"
    and nofin: "\<And>k u. k < n \<Longrightarrow> cycles m k v = Inr u \<Longrightarrow> \<not> gotFinish u"
    and r: "case r of Inr s' \<Rightarrow> s' = t \<and> gotFinish t
                    | Inl a \<Rightarrow> \<not> gotFinish t \<and> loop_body m t = Inl a"
    by (auto simp: stops_at_def)
  from b c have c': "cycles m (Suc n) s = Inr t"
    by (simp add: cycles_Suc_front del: cycles.simps)
  have "\<not> gotFinish u" if k: "k < Suc n" and u: "cycles m k s = Inr u" for k u
  proof (cases k)
    case 0
    with u nf show ?thesis by simp
  next
    case (Suc j)
    with u b have "cycles m j v = Inr u"
      by (simp add: cycles_Suc_front del: cycles.simps)
    with nofin [of j u] k Suc show ?thesis by simp
  qed
  with c' r show ?thesis unfolding stops_at_def by blast
qed

lemma sim_loop_Some:
  assumes "sim_loop m s = Some r"
  shows "\<exists>n t. stops_at m s r n t"
proof (rule sim_loop.raw_induct [OF _ assms])
  fix loop :: "'a model \<Rightarrow> 'a sim \<Rightarrow> ('a sim + 'a sim) option" and m s r
  assume IH: "\<And>m s r. loop m s = Some r \<Longrightarrow> \<exists>n t. stops_at m s r n t"
    and eq: "(if gotFinish s then Some (Inr s)
              else case loop_body m s of Inl a \<Rightarrow> Some (Inl a) | Inr s' \<Rightarrow> loop m s') = Some r"
  show "\<exists>n t. stops_at m s r n t"
  proof (cases "gotFinish s")
    case True
    with eq have "r = Inr s" by simp
    with True stops_at_now(1) [of s m] show ?thesis by blast
  next
    case nf: False
    show ?thesis
    proof (cases "loop_body m s")
      case (Inl a)
      with nf eq have "r = Inl a" by simp
      with nf Inl stops_at_now(2) [of s m a] show ?thesis by blast
    next
      case (Inr v)
      with nf eq have "loop m v = Some r" by simp
      from IH [OF this] obtain n t where "stops_at m v r n t" by blast
      from stops_at_later [OF nf Inr this] show ?thesis by blast
    qed
  qed
qed

lemma sim_loop_None:
  assumes "\<And>n. \<exists>t. cycles m n s = Inr t \<and> \<not> gotFinish t"
  shows "sim_loop m s = None"
proof (cases "sim_loop m s")
  case None
  then show ?thesis .
next
  case (Some r)
  from sim_loop_Some [OF this] obtain n t where st: "stops_at m s r n t" by blast
  then have c: "cycles m n s = Inr t" by (simp add: stops_at_def)
  from assms [of n] c have nf: "\<not> gotFinish t" by simp
  from assms [of "Suc n"] c obtain u where "loop_body m t = Inr u" by auto
  with st nf have False by (cases r) (auto simp: stops_at_def)
  then show ?thesis ..
qed

lemma main_Exited:
  assumes "main m fin0 clk0 sig0 = Some (Exited rc s)"
  shows "rc = 0"
    and "\<exists>n t. cycles m n (startup fin0 clk0 sig0) = Inr t \<and> gotFinish t \<and> s = vcd_close t"
proof -
  from assms obtain t where l: "sim_loop m (startup fin0 clk0 sig0) = Some (Inr t)"
    and s: "s = vcd_close t" and rc: "rc = 0"
    by (auto simp: main_def split: option.splits sum.splits)
  from rc show "rc = 0" .
  from sim_loop_Some [OF l] s
  show "\<exists>n t. cycles m n (startup fin0 clk0 sig0) = Inr t \<and> gotFinish t \<and> s = vcd_close t"
    by (auto simp: stops_at_def)
qed

lemma main_Aborted:
  assumes "main m fin0 clk0 sig0 = Some (Aborted a)"
  shows "\<exists>n t. half_cycles m n (startup fin0 clk0 sig0) = Inr t \<and> half_cycle m t = Inl a"
proof -
  from assms have l: "sim_loop m (startup fin0 clk0 sig0) = Some (Inl a)"
    by (auto simp: main_def split: option.splits sum.splits)
  from sim_loop_Some [OF l] obtain n t
    where c: "cycles m n (startup fin0 clk0 sig0) = Inr t" and b: "loop_body m t = Inl a"
    by (auto simp: stops_at_def)
  from c have h: "half_cycles m (2 * n) (startup fin0 clk0 sig0) = Inr t"
    by (simp add: cycles_half_cycles)
  show ?thesis
  proof (cases "half_cycle m t")
    case (Inl a')
    with b have "a' = a" by (simp add: loop_body_half)
    with Inl h show ?thesis by blast
  next
    case (Inr u)
    with b have "half_cycle m u = Inl a" by (simp add: loop_body_half)
    moreover from h Inr have "half_cycles m (Suc (2 * n)) (startup fin0 clk0 sig0) = Inr u"
      by simp
    ultimately show ?thesis by blast
  qed
qed

lemma free_running_cycles:
  "\<not> gotFinish s \<Longrightarrow> \<exists>t. cycles free_running n s = Inr t \<and> \<not> gotFinish t"
proof (induction n)
  case 0
  then show ?case by simp
next
  case (Suc n)
  then obtain t where t: "cycles free_running n s = Inr t" and nf: "\<not> gotFinish t" by blast
  have "\<exists>u. loop_body free_running t = Inr u \<and> \<not> gotFinish u"
    by (simp add: loop_body_def top_eval_def free_running_def Let_def dump_def)
  with t show ?case by auto
qed

lemma startup_simps [simp]:
  "time (startup fin0 clk0 sig0) = 0"
  "gotFinish (startup fin0 clk0 sig0) = fin0"
  "clk (startup fin0 clk0 sig0) = clk0"
  "signals (startup fin0 clk0 sig0) = sig0"
  "calls (startup fin0 clk0 sig0) = [Trace 99, Open ''pim_system_tb.vcd'']"
  by (simp_all add: startup_def vcd_open_def vcd_trace_def)

lemma vcd_close_simps [simp]:
  "time (vcd_close s) = time s"
  "gotFinish (vcd_close s) = gotFinish s"
  "clk (vcd_close s) = clk s"
  "signals (vcd_close s) = signals s"
  "calls (vcd_close s) = calls s @ [Close]"
  by (simp_all add: vcd_close_def)

lemma count_kind_Nil [simp]: "count_kind k [] = 0"
  by (simp add: count_kind_def)

lemma count_kind_Cons [simp]:
  "count_kind k (c # cs) = (if kind_of c = k then Suc (count_kind k cs) else count_kind k cs)"
  by (simp add: count_kind_def)

lemma samples_Nil [simp]: "samples [] = []"
  by (simp add: samples_def)

lemma samples_Cons [simp]: "samples (c # cs) = sample_of c @ samples cs"
  by (simp add: samples_def)

lemma stamps_Nil [simp]: "stamps [] = []"
  by (simp add: stamps_def)

lemma clocks_Nil [simp]: "clocks [] = []"
  by (simp add: clocks_def)

lemma stamps_Cons [simp]: "stamps (c # cs) = map fst (sample_of c) @ stamps cs"
  by (simp add: stamps_def)

lemma clocks_Cons [simp]: "clocks (c # cs) = map (\<lambda>x. fst (snd x)) (sample_of c) @ clocks cs"
  by (simp add: clocks_def)

lemma length_stamps [simp]: "length (stamps cs) = length (samples cs)"
  by (simp add: stamps_def)

lemma length_clocks [simp]: "length (clocks cs) = length (samples cs)"
  by (simp add: clocks_def)

lemma half_cycles_count:
  "half_cycles m n s = Inr s' \<Longrightarrow>
     count_kind k (calls s') = count_kind k (calls s) + (if k \<in> set half_kinds then n else 0)"
proof (induction n arbitrary: s')
  case 0
  then show ?case by simp
next
  case (Suc n)
  then obtain t where t: "half_cycles m n s = Inr t" and h: "half_cycle m t = Inr s'"
    by (auto split: sum.splits)
  from Suc.IH [OF t] half_cycle_Inr(3) [OF h] show ?case
    by (simp add: half_kinds_def)
qed

lemma Exited_halves:
  assumes "main m fin0 clk0 sig0 = Some (Exited rc s)"
  shows "\<exists>n t. half_cycles m (2 * n) (startup fin0 clk0 sig0) = Inr t \<and> gotFinish t \<and>
           s = vcd_close t"
  using main_Exited(2) [OF assms] by (auto simp: cycles_half_cycles)

lemma finish_on_halves: "\<exists>t. half_cycles (finish_on k) n s = Inr t"
proof (induction n)
  case 0
  show ?case by simp
next
  case (Suc n)
  then obtain t where t: "half_cycles (finish_on k) n s = Inr t" ..
  have "\<exists>u. half_cycle (finish_on k) t = Inr u"
    by (simp add: half_cycle_def top_eval_def finish_on_def Let_def)
  with t show ?case by auto
qed

lemma finish_on_6_exits:
  "\<exists>s. main (finish_on 6) False False 0 = Some (Exited 0 s) \<and> length (samples (calls s)) = 6"
proof -
  have "case main (finish_on 6) False False 0 of
          Some (Exited rc s) \<Rightarrow> rc = 0 \<and> length (samples (calls s)) = 6
        | _ \<Rightarrow> False"
    by code_simp
  then show ?thesis by (auto split: option.splits outcome.splits)
qed

lemma fatal_on_4_aborts:
  "\<exists>a. main (fatal_on 4) False False 0 = Some (Aborted a) \<and> length (samples (calls a)) = 3"
proof -
  have "case main (fatal_on 4) False False 0 of
          Some (Aborted a) \<Rightarrow> length (samples (calls a)) = 3
        | _ \<Rightarrow> False"
    by code_simp
  then show ?thesis by (auto split: option.splits outcome.splits)
qed

lemma Aborted_clocks_stamps:
  assumes "half_cycle m t = Inl a"
  shows "samples (calls a) = samples (calls t)"
    and "stamps (calls a) = stamps (calls t)"
    and "clocks (calls a) = clocks (calls t)"
  using half_cycle_Inl(3) [OF assms] by (simp_all add: stamps_def clocks_def)

lemma run_clocks:
  "half_cycles m n (startup fin0 clk0 sig0) = Inr s \<Longrightarrow>
     clocks (calls s) = map (\<lambda>i. even i \<noteq> clk0) [0..<n]"
  using half_cycles_clocks [of m n "startup fin0 clk0 sig0" s] by simp

lemma run_stamps:
  "half_cycles m n (startup fin0 clk0 sig0) = Inr s \<Longrightarrow>
     stamps (calls s) = map (\<lambda>i. 5 * Suc i) [0..<n]"
  using half_cycles_stamps [of m n "startup fin0 clk0 sig0" s] by simp

lemma run_samples_length:
  "half_cycles m n (startup fin0 clk0 sig0) = Inr s \<Longrightarrow> length (samples (calls s)) = n"
  using run_stamps [of m n fin0 clk0 sig0 s] length_stamps [of "calls s"] by simp

lemma alternating_upt:
  "Suc i < n \<Longrightarrow> map (\<lambda>i. even i \<noteq> c) [0..<n] ! i \<noteq> map (\<lambda>i. even i \<noteq> c) [0..<n] ! Suc i"
  by auto

lemma sorted_stamps_upt: "sorted_wrt (<) (map (\<lambda>i. 5 * Suc i) [0..<n])"
  by (simp add: sorted_wrt_iff_nth_less)

lemma loop_body_samples:
  assumes "loop_body m s = Inr s'"
  shows "length (samples (calls s')) = length (samples (calls s)) + 2"
    and "count_kind KEval (calls s') = count_kind KEval (calls s) + 2"
    and "map kind_of (calls s') = map kind_of (calls s) @ half_kinds @ half_kinds"
proof -
  from assms obtain t where a: "half_cycle m s = Inr t" and b: "half_cycle m t = Inr s'"
    by (auto simp: loop_body_half split: sum.splits)
  from half_cycle_Inr(3) [OF a] half_cycle_Inr(3) [OF b]
  show "length (samples (calls s')) = length (samples (calls s)) + 2"
    and "count_kind KEval (calls s') = count_kind KEval (calls s) + 2"
    and "map kind_of (calls s') = map kind_of (calls s) @ half_kinds @ half_kinds"
    by (simp_all add: half_kinds_def)
qed

lemma finish_on_body: "\<exists>u. loop_body (finish_on k) s = Inr u"
  by (simp add: loop_body_def top_eval_def finish_on_def Let_def)

lemma finish_on_cycles: "\<exists>t. cycles (finish_on k) n s = Inr t"
  using finish_on_halves [of k "2 * n" s] by (simp add: cycles_half_cycles)

lemma finish_on_half: "\<exists>u. half_cycle (finish_on k) s = Inr u"
  by (simp add: half_cycle_def top_eval_def finish_on_def Let_def)

lemma half_cycles_calls_grow:
  "half_cycles m n s = Inr s' \<Longrightarrow> \<exists>mid. calls s' = calls s @ mid"
proof (induction n arbitrary: s')
  case 0
  then show ?case by simp
next
  case (Suc n)
  then obtain t where t: "half_cycles m n s = Inr t" and h: "half_cycle m t = Inr s'"
    by (auto split: sum.splits)
  from Suc.IH [OF t] half_cycle_Inr(3) [OF h] show ?case by auto
qed

lemma run_calls:
  assumes h: "half_cycles m n (startup fin0 clk0 sig0) = Inr s"
  shows "\<exists>mid. calls s = [Trace 99, Open ''pim_system_tb.vcd''] @ mid \<and>
           count_kind KOpen mid = 0 \<and> count_kind KClose mid = 0 \<and>
           samples mid = samples (calls s)"
proof -
  from half_cycles_calls_grow [OF h] obtain mid
    where mid: "calls s = [Trace 99, Open ''pim_system_tb.vcd''] @ mid" by auto
  from half_cycles_count [OF h, of KOpen] half_cycles_count [OF h, of KClose] mid
  have "count_kind KOpen mid = 0" and "count_kind KClose mid = 0"
    by (simp_all add: half_kinds_def)
  moreover from mid have "samples mid = samples (calls s)" by simp
  ultimately show ?thesis using mid by blast
qed

lemma sim_loop_three:
  assumes "\<not> gotFinish s0" "loop_body m s0 = Inr s1"
    and "\<not> gotFinish s1" "loop_body m s1 = Inr s2"
    and "\<not> gotFinish s2" "loop_body m s2 = Inr s3"
    and "gotFinish s3"
  shows "sim_loop m s0 = Some (Inr s3)"
proof -
  have "sim_loop m s3 = Some (Inr s3)"
    using assms(7) by (subst sim_loop.simps) simp
  then have "sim_loop m s2 = Some (Inr s3)"
    using assms(5,6) by (subst sim_loop.simps) simp
  then have "sim_loop m s1 = Some (Inr s3)"
    using assms(3,4) by (subst sim_loop.simps) simp
  then show ?thesis
    using assms(1,2) by (subst sim_loop.simps) simp
qed

lemma upt_6: "[0..<6] = [0, 1, 2, 3, 4, 5]"
  by (simp add: upt_rec)

lemma stamps_upt_facts:
  "\<forall>t \<in> set (map (\<lambda>i. 5 * Suc i) [0..<n]). 0 < t \<and> 5 dvd t"
  "map (\<lambda>i. 5 * Suc i) [0..<n] \<noteq> [] \<Longrightarrow> hd (map (\<lambda>i. 5 * Suc i) [0..<n]) = 5"
  by (auto simp: hd_map)

lemma finish_on_5_exits: "\<exists>s. main (finish_on 5) False False 0 = Some (Exited 0 s)"
proof -
  have "case main (finish_on 5) False False 0 of Some (Exited rc s) \<Rightarrow> rc = 0 | _ \<Rightarrow> False"
    by code_simp
  then show ?thesis by (auto split: option.splits outcome.splits)
qed

subsection \<open>Termination of the loop\<close>

text \<open>
  C1. The loop is left through its test exactly when the finish flag is set after some
  finite number of full iterations (\<open>cycles m n s\<close> is the state after \<open>n\<close> passes
  through the body). When every iteration returns with the flag clear the loop has no
  result at all: it does not stop after any number of iterations. The same holds for
  \<open>main\<close>, whose loop starts in \<open>startup fin0 clk0 sig0\<close>.
\<close>

theorem loop_terminates_iff_finish:
  "((\<exists>s'. sim_loop m s = Some (Inr s')) \<longleftrightarrow> (\<exists>n s'. cycles m n s = Inr s' \<and> gotFinish s')) \<and>
   ((\<forall>n. \<exists>s'. cycles m n s = Inr s' \<and> \<not> gotFinish s') \<longrightarrow> sim_loop m s = None) \<and>
   ((\<exists>rc s'. main m fin0 clk0 sig0 = Some (Exited rc s')) \<longleftrightarrow>
      (\<exists>n s'. cycles m n (startup fin0 clk0 sig0) = Inr s' \<and> gotFinish s')) \<and>
   ((\<forall>n. \<exists>s'. cycles m n (startup fin0 clk0 sig0) = Inr s' \<and> \<not> gotFinish s') \<longrightarrow>
      main m fin0 clk0 sig0 = None)"
proof -
  have iff: "(\<exists>s'. sim_loop m s = Some (Inr s')) \<longleftrightarrow> (\<exists>n s'. cycles m n s = Inr s' \<and> gotFinish s')"
    for s :: "'a sim"
  proof
    assume "\<exists>s'. sim_loop m s = Some (Inr s')"
    then obtain s' where "sim_loop m s = Some (Inr s')" ..
    from sim_loop_Some [OF this] show "\<exists>n s'. cycles m n s = Inr s' \<and> gotFinish s'"
      by (auto simp: stops_at_def)
  next
    let ?fin = "\<lambda>n. \<exists>s'. cycles m n s = Inr s' \<and> gotFinish s'"
    assume "\<exists>n s'. cycles m n s = Inr s' \<and> gotFinish s'"
    then have "\<exists>n. ?fin n" .
    then obtain n where n: "?fin n" and least: "\<forall>k<n. \<not> ?fin k"
      by (auto simp: exists_least_iff [of ?fin])
    from n obtain s' where c: "cycles m n s = Inr s'" and f: "gotFinish s'" by blast
    have "sim_loop m s = Some (Inr s')"
      by (rule sim_loop_exit [OF c f]) (use least in blast)
    then show "\<exists>s'. sim_loop m s = Some (Inr s')" ..
  qed
  have never: "sim_loop m s = None" if "\<forall>n. \<exists>s'. cycles m n s = Inr s' \<and> \<not> gotFinish s'"
    for s :: "'a sim"
    by (rule sim_loop_None) (use that in blast)
  have main_iff: "(\<exists>rc s'. main m fin0 clk0 sig0 = Some (Exited rc s')) \<longleftrightarrow>
      (\<exists>s'. sim_loop m (startup fin0 clk0 sig0) = Some (Inr s'))"
    by (auto simp: main_def split: option.splits sum.splits)
  have main_never: "main m fin0 clk0 sig0 = None"
    if "sim_loop m (startup fin0 clk0 sig0) = None"
    using that by (simp add: main_def)
  from iff [of s] never [of s] iff [of "startup fin0 clk0 sig0"] main_iff
    never [of "startup fin0 clk0 sig0"] main_never
  show ?thesis by blast
qed

theorem loop_terminates_iff_finish_witness:
  "(\<exists>n s'. cycles (finish_on 6) n (startup False False 0) = Inr s' \<and> gotFinish s') \<and>
   (\<exists>rc s'. main (finish_on 6) False False 0 = Some (Exited rc s')) \<and>
   (\<forall>n. \<exists>s'. cycles free_running n (startup False False 0) = Inr s' \<and> \<not> gotFinish s') \<and>
   main free_running False False 0 = None"
proof -
  have "case cycles (finish_on 6) 3 (startup False False 0) of
          Inl a \<Rightarrow> False | Inr s' \<Rightarrow> gotFinish s'"
    by code_simp
  then have "\<exists>s'. cycles (finish_on 6) 3 (startup False False 0) = Inr s' \<and> gotFinish s'"
    by (auto split: sum.splits)
  then have a: "\<exists>n s'. cycles (finish_on 6) n (startup False False 0) = Inr s' \<and> gotFinish s'" ..
  have "\<not> gotFinish (startup False False (0::nat))"
    by (simp add: startup_def vcd_open_def vcd_trace_def)
  then have b: "\<forall>n. \<exists>s'. cycles free_running n (startup False False 0) = Inr s' \<and> \<not> gotFinish s'"
    using free_running_cycles by blast
  from a b loop_terminates_iff_finish [of "finish_on 6" "startup False False 0" False False 0]
    loop_terminates_iff_finish [of free_running "startup False False 0" False False 0]
  show ?thesis by blast
qed

subsection \<open>Simulated time\<close>

text \<open>
  C2. With the quantum 5 of lines 26 and 35, \<open>timeInc\<close> adds exactly 5 to the time, and
  no other statement of the loop (the clock write, \<open>eval\<close>, \<open>dump\<close>) changes it. So
  after \<open>n\<close> half-cycles, which make \<open>n\<close> calls of \<open>timeInc\<close>, the time is \<open>n * 5\<close>;
  and however a run ends, its time is 5 times the number of advancements it made.
\<close>

theorem time_is_advancements_times_quantum:
  "time (timeInc 5 s) = time s + 5 \<and>
   time (toggle_clk s) = time s \<and>
   (\<forall>s'. top_eval m s = Inr s' \<longrightarrow> time s' = time s) \<and>
   time (dump t s) = time s \<and>
   (\<forall>s'. half_cycles m n (startup fin0 clk0 sig0) = Inr s' \<longrightarrow>
      count_kind KTimeInc (calls s') = n \<and> time s' = n * 5) \<and>
   (\<forall>rc s'. main m fin0 clk0 sig0 = Some (Exited rc s') \<longrightarrow>
      time s' = count_kind KTimeInc (calls s') * 5) \<and>
   (\<forall>a. main m fin0 clk0 sig0 = Some (Aborted a) \<longrightarrow>
      time a = count_kind KTimeInc (calls a) * 5)"
proof (intro conjI allI impI)
  show "time (timeInc 5 s) = time s + 5" by (simp add: timeInc_def)
  show "time (toggle_clk s) = time s" by (simp add: toggle_clk_def)
  show "time (dump t s) = time s" by (simp add: dump_def)
next
  fix s' assume "top_eval m s = Inr s'"
  then show "time s' = time s"
    by (auto simp: top_eval_def Let_def split: option.splits)
next
  fix s' assume h: "half_cycles m n (startup fin0 clk0 sig0) = Inr s'"
  from half_cycles_count [OF h, of KTimeInc] show "count_kind KTimeInc (calls s') = n"
    by (simp add: half_kinds_def)
  from half_cycles_time [OF h] show "time s' = n * 5" by simp
next
  fix rc s' assume "main m fin0 clk0 sig0 = Some (Exited rc s')"
  from Exited_halves [OF this] obtain n t
    where h: "half_cycles m (2 * n) (startup fin0 clk0 sig0) = Inr t" and s': "s' = vcd_close t"
    by blast
  from half_cycles_count [OF h, of KTimeInc] half_cycles_time [OF h] s'
  show "time s' = count_kind KTimeInc (calls s') * 5"
    by (simp add: half_kinds_def)
next
  fix a assume "main m fin0 clk0 sig0 = Some (Aborted a)"
  from main_Aborted [OF this] obtain n t
    where h: "half_cycles m n (startup fin0 clk0 sig0) = Inr t" and a: "half_cycle m t = Inl a"
    by blast
  from half_cycles_count [OF h, of KTimeInc] half_cycles_time [OF h]
    half_cycle_Inl(1) [OF a] half_cycle_Inl(3) [OF a]
  show "time a = count_kind KTimeInc (calls a) * 5"
    by (simp add: half_kinds_def)
qed

theorem time_is_advancements_times_quantum_witness:
  "(\<exists>s'. top_eval (finish_on 6) (startup False False 0) = Inr s' \<and> time s' = 0) \<and>
   (\<exists>s'. half_cycles (finish_on 6) 3 (startup False False 0) = Inr s' \<and>
      count_kind KTimeInc (calls s') = 3 \<and> time s' = 15) \<and>
   (\<exists>s'. main (finish_on 6) False False 0 = Some (Exited 0 s') \<and>
      time s' = count_kind KTimeInc (calls s') * 5) \<and>
   (\<exists>a. main (fatal_on 4) False False 0 = Some (Aborted a) \<and>
      time a = count_kind KTimeInc (calls a) * 5)"
proof -
  have "\<exists>s'. top_eval (finish_on 6) (startup False False 0) = Inr s'"
    by (simp add: top_eval_def finish_on_def Let_def)
  then obtain e where e: "top_eval (finish_on 6) (startup False False 0) = Inr e" ..
  obtain h where h: "half_cycles (finish_on 6) 3 (startup False False 0) = Inr h"
    using finish_on_halves by blast
  obtain x where x: "main (finish_on 6) False False 0 = Some (Exited 0 x)"
    using finish_on_6_exits by blast
  obtain a where a: "main (fatal_on 4) False False 0 = Some (Aborted a)"
    using fatal_on_4_aborts by blast
  note w1 = time_is_advancements_times_quantum
    [of "startup False False 0" "finish_on 6" 0 3 False False 0]
  note w2 = time_is_advancements_times_quantum
    [of "startup False False 0" "finish_on 6" 0 0 False False 0]
  note w3 = time_is_advancements_times_quantum
    [of "startup False False 0" "fatal_on 4" 0 0 False False 0]
  from w1 e have "time e = 0" by simp
  moreover from w1 h have "count_kind KTimeInc (calls h) = 3 \<and> time h = 15" by simp
  moreover from w2 x have "time x = count_kind KTimeInc (calls x) * 5" by blast
  moreover from w3 a have "time a = count_kind KTimeInc (calls a) * 5" by blast
  ultimately show ?thesis using e h x a by blast
qed

subsection \<open>The clock\<close>

text \<open>
  C3. The clock write of lines 28 and 36 inverts the clock input, and nothing else in the
  loop touches it; there is one write for each advancement of time. Hence after \<open>n\<close>
  half-cycles the clock has its initial value when \<open>n\<close> is even and the opposite value
  when \<open>n\<close> is odd, and in the samples recorded by any run (\<open>clocks\<close> lists their clock
  values, oldest first) neighbours always differ.
\<close>

theorem clock_alternates:
  "clk (toggle_clk s) = (\<not> clk s) \<and>
   clk (timeInc q s) = clk s \<and>
   (\<forall>s'. top_eval m s = Inr s' \<longrightarrow> clk s' = clk s) \<and>
   clk (dump t s) = clk s \<and>
   (\<forall>s'. half_cycles m n (startup fin0 clk0 sig0) = Inr s' \<longrightarrow>
      count_kind KClkWrite (calls s') = count_kind KTimeInc (calls s') \<and>
      clk s' = (if even n then clk0 else \<not> clk0) \<and>
      (\<forall>i. Suc i < length (clocks (calls s')) \<longrightarrow>
         clocks (calls s') ! i \<noteq> clocks (calls s') ! Suc i)) \<and>
   (\<forall>rc s'. main m fin0 clk0 sig0 = Some (Exited rc s') \<longrightarrow>
      (\<forall>i. Suc i < length (clocks (calls s')) \<longrightarrow>
         clocks (calls s') ! i \<noteq> clocks (calls s') ! Suc i)) \<and>
   (\<forall>a. main m fin0 clk0 sig0 = Some (Aborted a) \<longrightarrow>
      (\<forall>i. Suc i < length (clocks (calls a)) \<longrightarrow>
         clocks (calls a) ! i \<noteq> clocks (calls a) ! Suc i))"
proof -
  have alt: "clocks (calls s') ! i \<noteq> clocks (calls s') ! Suc i"
    if "half_cycles m k (startup fin0 clk0 sig0) = Inr s'" "Suc i < length (clocks (calls s'))"
    for k s' i
    using that run_clocks [OF that(1)] alternating_upt [of i k clk0] by simp
  show ?thesis
  proof (intro conjI allI impI)
    show "clk (toggle_clk s) = (\<not> clk s)" by (simp add: toggle_clk_def)
    show "clk (timeInc q s) = clk s" by (simp add: timeInc_def)
    show "clk (dump t s) = clk s" by (simp add: dump_def)
  next
    fix s' assume "top_eval m s = Inr s'"
    then show "clk s' = clk s"
      by (auto simp: top_eval_def Let_def split: option.splits)
  next
    fix s' assume h: "half_cycles m n (startup fin0 clk0 sig0) = Inr s'"
    from half_cycles_count [OF h, of KClkWrite] half_cycles_count [OF h, of KTimeInc]
    show "count_kind KClkWrite (calls s') = count_kind KTimeInc (calls s')"
      by (simp add: half_kinds_def)
    from half_cycles_clk [OF h] show "clk s' = (if even n then clk0 else \<not> clk0)" by simp
    fix i assume "Suc i < length (clocks (calls s'))"
    with h show "clocks (calls s') ! i \<noteq> clocks (calls s') ! Suc i" by (rule alt)
  next
    fix rc s' i
    assume "main m fin0 clk0 sig0 = Some (Exited rc s')"
      and i: "Suc i < length (clocks (calls s'))"
    from Exited_halves [OF this(1)] obtain k u
      where h: "half_cycles m (2 * k) (startup fin0 clk0 sig0) = Inr u" and s': "s' = vcd_close u"
      by blast
    from alt [OF h, of i] i s' show "clocks (calls s') ! i \<noteq> clocks (calls s') ! Suc i"
      by simp
  next
    fix a i
    assume "main m fin0 clk0 sig0 = Some (Aborted a)"
      and i: "Suc i < length (clocks (calls a))"
    from main_Aborted [OF this(1)] obtain k u
      where h: "half_cycles m k (startup fin0 clk0 sig0) = Inr u" and a: "half_cycle m u = Inl a"
      by blast
    from alt [OF h, of i] i Aborted_clocks_stamps(3) [OF a]
    show "clocks (calls a) ! i \<noteq> clocks (calls a) ! Suc i"
      by simp
  qed
qed

theorem clock_alternates_witness:
  "(\<exists>s'. top_eval (finish_on 6) (startup False False 0) = Inr s' \<and> clk s' = False) \<and>
   (\<exists>s'. half_cycles (finish_on 6) 3 (startup False False 0) = Inr s' \<and>
      count_kind KClkWrite (calls s') = count_kind KTimeInc (calls s') \<and> clk s' = True \<and>
      Suc 0 < length (clocks (calls s')) \<and>
      clocks (calls s') ! 0 \<noteq> clocks (calls s') ! Suc 0) \<and>
   (\<exists>s'. main (finish_on 6) False False 0 = Some (Exited 0 s') \<and>
      Suc 4 < length (clocks (calls s')) \<and>
      clocks (calls s') ! 4 \<noteq> clocks (calls s') ! Suc 4) \<and>
   (\<exists>a. main (fatal_on 4) False False 0 = Some (Aborted a) \<and>
      Suc 1 < length (clocks (calls a)) \<and>
      clocks (calls a) ! 1 \<noteq> clocks (calls a) ! Suc 1)"
proof -
  have "\<exists>s'. top_eval (finish_on 6) (startup False False 0) = Inr s'"
    by (simp add: top_eval_def finish_on_def Let_def)
  then obtain e where e: "top_eval (finish_on 6) (startup False False 0) = Inr e" ..
  obtain h where h: "half_cycles (finish_on 6) 3 (startup False False 0) = Inr h"
    using finish_on_halves by blast
  obtain x where x: "main (finish_on 6) False False 0 = Some (Exited 0 x)"
    and lx: "Suc 4 < length (clocks (calls x))"
    using finish_on_6_exits by auto
  obtain a where a: "main (fatal_on 4) False False 0 = Some (Aborted a)"
    and la: "Suc 1 < length (clocks (calls a))"
    using fatal_on_4_aborts by auto
  have lh: "Suc 0 < length (clocks (calls h))"
    using run_samples_length [OF h] by simp
  note w1 = clock_alternates
    [of "startup False False 0" 0 "finish_on 6" 0 3 False False 0]
  note w2 = clock_alternates
    [of "startup False False 0" 0 "finish_on 6" 0 0 False False 0]
  note w3 = clock_alternates
    [of "startup False False 0" 0 "fatal_on 4" 0 0 False False 0]
  from w1 e have "clk e = False" by simp
  moreover from w1 h lh have "count_kind KClkWrite (calls h) = count_kind KTimeInc (calls h) \<and>
      clk h = True \<and> clocks (calls h) ! 0 \<noteq> clocks (calls h) ! Suc 0" by simp
  moreover from w2 x lx have "clocks (calls x) ! 4 \<noteq> clocks (calls x) ! Suc 4" by blast
  moreover from w3 a la have "clocks (calls a) ! 1 \<noteq> clocks (calls a) ! Suc 1" by blast
  ultimately show ?thesis using e h x a lh lx la by blast
qed

subsection \<open>Samples\<close>

text \<open>
  C4. Every evaluation that returns is followed by one \<open>dump\<close>: after \<open>n\<close> half-cycles
  the run has made \<open>n\<close> evaluations and recorded \<open>n\<close> samples, one pass through the loop
  body adds two samples, and after \<open>n\<close> iterations there are \<open>2 * n\<close>. The time stamps of
  the samples (\<open>stamps\<close>, oldest first) are strictly increasing, at every point of a run
  and however it ends. A run that ends inside an evaluation has recorded no sample for
  that last evaluation.
\<close>

theorem one_sample_per_evaluation:
  "(\<forall>s'. half_cycles m n (startup fin0 clk0 sig0) = Inr s' \<longrightarrow>
      length (samples (calls s')) = n \<and> count_kind KEval (calls s') = n \<and>
      sorted_wrt (<) (stamps (calls s'))) \<and>
   (\<forall>s'. loop_body m s = Inr s' \<longrightarrow>
      length (samples (calls s')) = length (samples (calls s)) + 2 \<and>
      count_kind KEval (calls s') = count_kind KEval (calls s) + 2) \<and>
   (\<forall>s'. cycles m n (startup fin0 clk0 sig0) = Inr s' \<longrightarrow>
      length (samples (calls s')) = 2 * n) \<and>
   (\<forall>rc s'. main m fin0 clk0 sig0 = Some (Exited rc s') \<longrightarrow>
      length (samples (calls s')) = count_kind KEval (calls s') \<and>
      sorted_wrt (<) (stamps (calls s'))) \<and>
   (\<forall>a. main m fin0 clk0 sig0 = Some (Aborted a) \<longrightarrow>
      Suc (length (samples (calls a))) = count_kind KEval (calls a) \<and>
      sorted_wrt (<) (stamps (calls a)))"
proof -
  have run: "length (samples (calls s')) = k \<and> count_kind KEval (calls s') = k \<and>
      sorted_wrt (<) (stamps (calls s'))"
    if h: "half_cycles m k (startup fin0 clk0 sig0) = Inr s'" for k s'
    using run_samples_length [OF h] half_cycles_count [OF h, of KEval] run_stamps [OF h]
      sorted_stamps_upt [of k]
    by (simp add: half_kinds_def)
  show ?thesis
  proof (intro conjI allI impI)
    fix s' assume h: "half_cycles m n (startup fin0 clk0 sig0) = Inr s'"
    from run [OF h] show "length (samples (calls s')) = n"
      and "count_kind KEval (calls s') = n" and "sorted_wrt (<) (stamps (calls s'))"
      by simp_all
  next
    fix s' assume b: "loop_body m s = Inr s'"
    from loop_body_samples(1) [OF b]
    show "length (samples (calls s')) = length (samples (calls s)) + 2" .
    from loop_body_samples(2) [OF b]
    show "count_kind KEval (calls s') = count_kind KEval (calls s) + 2" .
  next
    fix s' assume "cycles m n (startup fin0 clk0 sig0) = Inr s'"
    then have "half_cycles m (2 * n) (startup fin0 clk0 sig0) = Inr s'"
      by (simp add: cycles_half_cycles)
    from run [OF this] show "length (samples (calls s')) = 2 * n" by simp
  next
    fix rc s' assume "main m fin0 clk0 sig0 = Some (Exited rc s')"
    from Exited_halves [OF this] obtain k u
      where h: "half_cycles m (2 * k) (startup fin0 clk0 sig0) = Inr u" and s': "s' = vcd_close u"
      by blast
    from run [OF h] s' show "length (samples (calls s')) = count_kind KEval (calls s')"
      and "sorted_wrt (<) (stamps (calls s'))"
      by simp_all
  next
    fix a assume "main m fin0 clk0 sig0 = Some (Aborted a)"
    from main_Aborted [OF this] obtain k u
      where h: "half_cycles m k (startup fin0 clk0 sig0) = Inr u" and a: "half_cycle m u = Inl a"
      by blast
    from run [OF h] half_cycle_Inl(3) [OF a]
    show "Suc (length (samples (calls a))) = count_kind KEval (calls a)"
      and "sorted_wrt (<) (stamps (calls a))"
      by simp_all
  qed
qed

theorem one_sample_per_evaluation_witness:
  "(\<exists>s'. half_cycles (finish_on 6) 3 (startup False False 0) = Inr s' \<and>
      length (samples (calls s')) = 3 \<and> count_kind KEval (calls s') = 3 \<and>
      sorted_wrt (<) (stamps (calls s'))) \<and>
   (\<exists>s'. loop_body (finish_on 6) (startup False False 0) = Inr s' \<and>
      length (samples (calls s')) = 2 \<and> count_kind KEval (calls s') = 2) \<and>
   (\<exists>s'. cycles (finish_on 6) 3 (startup False False 0) = Inr s' \<and>
      length (samples (calls s')) = 6) \<and>
   (\<exists>s'. main (finish_on 6) False False 0 = Some (Exited 0 s') \<and>
      length (samples (calls s')) = count_kind KEval (calls s') \<and>
      sorted_wrt (<) (stamps (calls s'))) \<and>
   (\<exists>a. main (fatal_on 4) False False 0 = Some (Aborted a) \<and>
      Suc (length (samples (calls a))) = count_kind KEval (calls a) \<and>
      sorted_wrt (<) (stamps (calls a)))"
proof -
  obtain h where h: "half_cycles (finish_on 6) 3 (startup False False 0) = Inr h"
    using finish_on_halves by blast
  obtain b where b: "loop_body (finish_on 6) (startup False False 0) = Inr b"
    using finish_on_body by blast
  obtain c where c: "cycles (finish_on 6) 3 (startup False False 0) = Inr c"
    using finish_on_cycles by blast
  obtain x where x: "main (finish_on 6) False False 0 = Some (Exited 0 x)"
    using finish_on_6_exits by blast
  obtain a where a: "main (fatal_on 4) False False 0 = Some (Aborted a)"
    using fatal_on_4_aborts by blast
  note w1 = one_sample_per_evaluation
    [of "finish_on 6" 3 False False 0 "startup False False 0"]
  note w2 = one_sample_per_evaluation
    [of "fatal_on 4" 0 False False 0 "startup False False 0"]
  from w1 h have "length (samples (calls h)) = 3 \<and> count_kind KEval (calls h) = 3 \<and>
      sorted_wrt (<) (stamps (calls h))" by blast
  moreover from w1 b have "length (samples (calls b)) = 2 \<and> count_kind KEval (calls b) = 2"
    by simp
  moreover from w1 c have "length (samples (calls c)) = 6" by simp
  moreover from w1 x have "length (samples (calls x)) = count_kind KEval (calls x) \<and>
      sorted_wrt (<) (stamps (calls x))" by blast
  moreover from w2 a have "Suc (length (samples (calls a))) = count_kind KEval (calls a) \<and>
      sorted_wrt (<) (stamps (calls a))" by blast
  ultimately show ?thesis using h b c x a by blast
qed

subsection \<open>Order of the calls\<close>

text \<open>
  C5. A half-cycle that returns has made exactly four calls, in this order: \<open>timeInc 5\<close>,
  the write of the inverted clock, one \<open>eval\<close>, and the \<open>dump\<close>, whose sample shows the
  design as that \<open>eval\<close> left it. The loop body is two such groups. So the calls of a
  whole run, by kind, are the two start-up calls followed by complete groups of four; a
  run that leaves the loop ends with \<open>Close\<close>, and a run that ends inside an evaluation
  ends with the first three calls of a group.
\<close>

theorem half_cycle_call_order:
  "(\<forall>s'. half_cycle m s = Inr s' \<longrightarrow>
      calls s' = calls s @ [TimeInc 5, ClkWrite (\<not> clk s), Eval,
                             Dump (time s + 5) (\<not> clk s) (signals s')] \<and>
      m (time s + 5) (gotFinish s) (\<not> clk s) (signals s) = Some (gotFinish s', signals s')) \<and>
   (\<forall>s'. loop_body m s = Inr s' \<longrightarrow>
      map kind_of (calls s') = map kind_of (calls s) @ half_kinds @ half_kinds) \<and>
   (\<forall>s'. half_cycles m n (startup fin0 clk0 sig0) = Inr s' \<longrightarrow>
      map kind_of (calls s') = [KTrace, KOpen] @ concat (replicate n half_kinds)) \<and>
   (\<forall>rc s'. main m fin0 clk0 sig0 = Some (Exited rc s') \<longrightarrow>
      (\<exists>k. map kind_of (calls s') =
             [KTrace, KOpen] @ concat (replicate (2 * k) half_kinds) @ [KClose])) \<and>
   (\<forall>a. main m fin0 clk0 sig0 = Some (Aborted a) \<longrightarrow>
      (\<exists>k. map kind_of (calls a) =
             [KTrace, KOpen] @ concat (replicate k half_kinds) @ [KTimeInc, KClkWrite, KEval]))"
proof (intro conjI allI impI)
  fix s' assume h: "half_cycle m s = Inr s'"
  from half_cycle_Inr(3) [OF h]
  show "calls s' = calls s @ [TimeInc 5, ClkWrite (\<not> clk s), Eval,
                               Dump (time s + 5) (\<not> clk s) (signals s')]" .
  from half_cycle_Inr(4) [OF h]
  show "m (time s + 5) (gotFinish s) (\<not> clk s) (signals s) = Some (gotFinish s', signals s')" .
next
  fix s' assume "loop_body m s = Inr s'"
  from loop_body_samples(3) [OF this]
  show "map kind_of (calls s') = map kind_of (calls s) @ half_kinds @ half_kinds" .
next
  fix s' assume "half_cycles m n (startup fin0 clk0 sig0) = Inr s'"
  from half_cycles_kinds [OF this]
  show "map kind_of (calls s') = [KTrace, KOpen] @ concat (replicate n half_kinds)" by simp
next
  fix rc s' assume "main m fin0 clk0 sig0 = Some (Exited rc s')"
  from Exited_halves [OF this] obtain k u
    where h: "half_cycles m (2 * k) (startup fin0 clk0 sig0) = Inr u" and s': "s' = vcd_close u"
    by blast
  from half_cycles_kinds [OF h] s'
  have "map kind_of (calls s') = [KTrace, KOpen] @ concat (replicate (2 * k) half_kinds) @ [KClose]"
    by simp
  then show "\<exists>k. map kind_of (calls s') =
      [KTrace, KOpen] @ concat (replicate (2 * k) half_kinds) @ [KClose]" ..
next
  fix a assume "main m fin0 clk0 sig0 = Some (Aborted a)"
  from main_Aborted [OF this] obtain k u
    where h: "half_cycles m k (startup fin0 clk0 sig0) = Inr u" and a: "half_cycle m u = Inl a"
    by blast
  from half_cycles_kinds [OF h] half_cycle_Inl(3) [OF a]
  have "map kind_of (calls a) =
      [KTrace, KOpen] @ concat (replicate k half_kinds) @ [KTimeInc, KClkWrite, KEval]"
    by simp
  then show "\<exists>k. map kind_of (calls a) =
      [KTrace, KOpen] @ concat (replicate k half_kinds) @ [KTimeInc, KClkWrite, KEval]" ..
qed

theorem half_cycle_call_order_witness:
  "(\<exists>s'. half_cycle (finish_on 6) (startup False False 0) = Inr s' \<and>
      calls s' = [Trace 99, Open ''pim_system_tb.vcd'', TimeInc 5, ClkWrite True, Eval,
                  Dump 5 True (signals s')] \<and>
      Some (gotFinish s', signals s') = Some (False, 1)) \<and>
   (\<exists>s'. loop_body (finish_on 6) (startup False False 0) = Inr s' \<and>
      map kind_of (calls s') = [KTrace, KOpen] @ half_kinds @ half_kinds) \<and>
   (\<exists>s'. half_cycles (finish_on 6) 3 (startup False False 0) = Inr s' \<and>
      map kind_of (calls s') = [KTrace, KOpen] @ half_kinds @ half_kinds @ half_kinds) \<and>
   (\<exists>s' k. main (finish_on 6) False False 0 = Some (Exited 0 s') \<and>
      map kind_of (calls s') = [KTrace, KOpen] @ concat (replicate (2 * k) half_kinds) @ [KClose]) \<and>
   (\<exists>a k. main (fatal_on 4) False False 0 = Some (Aborted a) \<and>
      map kind_of (calls a) =
        [KTrace, KOpen] @ concat (replicate k half_kinds) @ [KTimeInc, KClkWrite, KEval])"
proof -
  obtain e where e: "half_cycle (finish_on 6) (startup False False 0) = Inr e"
    using finish_on_half by blast
  obtain h where h: "half_cycles (finish_on 6) 3 (startup False False 0) = Inr h"
    using finish_on_halves by blast
  obtain b where b: "loop_body (finish_on 6) (startup False False 0) = Inr b"
    using finish_on_body by blast
  obtain x where x: "main (finish_on 6) False False 0 = Some (Exited 0 x)"
    using finish_on_6_exits by blast
  obtain a where a: "main (fatal_on 4) False False 0 = Some (Aborted a)"
    using fatal_on_4_aborts by blast
  note w1 = half_cycle_call_order
    [of "finish_on 6" "startup False False 0" 3 False False 0]
  note w2 = half_cycle_call_order
    [of "fatal_on 4" "startup False False 0" 0 False False 0]
  from w1 e have "calls e = [Trace 99, Open ''pim_system_tb.vcd'', TimeInc 5, ClkWrite True, Eval,
                  Dump 5 True (signals e)] \<and>
      Some (gotFinish e, signals e) = Some (False, 1)"
    by (simp add: finish_on_def)
  moreover from w1 b have "map kind_of (calls b) = [KTrace, KOpen] @ half_kinds @ half_kinds"
    by simp
  moreover from w1 h have "map kind_of (calls h) =
      [KTrace, KOpen] @ half_kinds @ half_kinds @ half_kinds"
    by (simp add: numeral_3_eq_3)
  moreover from w1 x have "\<exists>k. map kind_of (calls x) =
      [KTrace, KOpen] @ concat (replicate (2 * k) half_kinds) @ [KClose]" by blast
  moreover from w2 a have "\<exists>k. map kind_of (calls a) =
      [KTrace, KOpen] @ concat (replicate k half_kinds) @ [KTimeInc, KClkWrite, KEval]" by blast
  ultimately show ?thesis using e h b x a by blast
qed

subsection \<open>The waveform file\<close>

text \<open>
  C6, as the code has it. The file is opened once, before the loop and so before any
  sample. When the loop is left through its test, \<open>Close\<close> is the last call of the run:
  the file is closed once, after every sample. Line 44 is the only place that closes it,
  so a run that ends inside an evaluation leaves it open.
\<close>

theorem sink_closed_once_on_normal_exit:
  "(\<forall>rc s'. main m fin0 clk0 sig0 = Some (Exited rc s') \<longrightarrow>
      (\<exists>mid. calls s' = [Trace 99, Open ''pim_system_tb.vcd''] @ mid @ [Close] \<and>
             count_kind KOpen mid = 0 \<and> count_kind KClose mid = 0 \<and>
             samples mid = samples (calls s')) \<and>
      count_kind KOpen (calls s') = 1 \<and> count_kind KClose (calls s') = 1) \<and>
   (\<forall>a. main m fin0 clk0 sig0 = Some (Aborted a) \<longrightarrow>
      (\<exists>mid. calls a = [Trace 99, Open ''pim_system_tb.vcd''] @ mid \<and>
             count_kind KOpen mid = 0 \<and> samples mid = samples (calls a)) \<and>
      count_kind KOpen (calls a) = 1 \<and> count_kind KClose (calls a) = 0)"
proof (intro conjI allI impI)
  fix rc s' assume "main m fin0 clk0 sig0 = Some (Exited rc s')"
  from Exited_halves [OF this] obtain k u
    where h: "half_cycles m (2 * k) (startup fin0 clk0 sig0) = Inr u" and s': "s' = vcd_close u"
    by blast
  from run_calls [OF h] obtain mid
    where mid: "calls u = [Trace 99, Open ''pim_system_tb.vcd''] @ mid"
      and c: "count_kind KOpen mid = 0" "count_kind KClose mid = 0"
      and sm: "samples mid = samples (calls u)"
    by blast
  from mid c sm s'
  have "calls s' = [Trace 99, Open ''pim_system_tb.vcd''] @ mid @ [Close] \<and>
      count_kind KOpen mid = 0 \<and> count_kind KClose mid = 0 \<and> samples mid = samples (calls s')"
    by simp
  then show "\<exists>mid. calls s' = [Trace 99, Open ''pim_system_tb.vcd''] @ mid @ [Close] \<and>
      count_kind KOpen mid = 0 \<and> count_kind KClose mid = 0 \<and> samples mid = samples (calls s')" ..
  from mid c s' show "count_kind KOpen (calls s') = 1" and "count_kind KClose (calls s') = 1"
    by simp_all
next
  fix a assume "main m fin0 clk0 sig0 = Some (Aborted a)"
  from main_Aborted [OF this] obtain k u
    where h: "half_cycles m k (startup fin0 clk0 sig0) = Inr u" and a: "half_cycle m u = Inl a"
    by blast
  from run_calls [OF h] obtain mid
    where mid: "calls u = [Trace 99, Open ''pim_system_tb.vcd''] @ mid"
      and c: "count_kind KOpen mid = 0" "count_kind KClose mid = 0"
      and sm: "samples mid = samples (calls u)"
    by blast
  let ?mid = "mid @ [TimeInc 5, ClkWrite (\<not> clk u), Eval]"
  from mid c sm half_cycle_Inl(3) [OF a]
  have "calls a = [Trace 99, Open ''pim_system_tb.vcd''] @ ?mid \<and>
      count_kind KOpen ?mid = 0 \<and> samples ?mid = samples (calls a)"
    by simp
  then show "\<exists>mid. calls a = [Trace 99, Open ''pim_system_tb.vcd''] @ mid \<and>
      count_kind KOpen mid = 0 \<and> samples mid = samples (calls a)" ..
  from mid c half_cycle_Inl(3) [OF a]
  show "count_kind KOpen (calls a) = 1" and "count_kind KClose (calls a) = 0"
    by simp_all
qed

theorem sink_closed_once_on_normal_exit_witness:
  "(\<exists>s' mid. main (finish_on 6) False False 0 = Some (Exited 0 s') \<and>
      calls s' = [Trace 99, Open ''pim_system_tb.vcd''] @ mid @ [Close] \<and>
      count_kind KOpen mid = 0 \<and> count_kind KClose mid = 0 \<and>
      samples mid = samples (calls s') \<and> length (samples mid) = 6 \<and>
      count_kind KOpen (calls s') = 1 \<and> count_kind KClose (calls s') = 1) \<and>
   (\<exists>a mid. main (fatal_on 4) False False 0 = Some (Aborted a) \<and>
      calls a = [Trace 99, Open ''pim_system_tb.vcd''] @ mid \<and>
      count_kind KOpen mid = 0 \<and> samples mid = samples (calls a) \<and>
      length (samples mid) = 3 \<and>
      count_kind KOpen (calls a) = 1 \<and> count_kind KClose (calls a) = 0)"
proof -
  obtain x where x: "main (finish_on 6) False False 0 = Some (Exited 0 x)"
    and lx: "length (samples (calls x)) = 6"
    using finish_on_6_exits by blast
  obtain a where a: "main (fatal_on 4) False False 0 = Some (Aborted a)"
    and la: "length (samples (calls a)) = 3"
    using fatal_on_4_aborts by blast
  note w1 = sink_closed_once_on_normal_exit [of "finish_on 6" False False 0]
  note w2 = sink_closed_once_on_normal_exit [of "fatal_on 4" False False 0]
  from w1 x lx have "\<exists>mid. calls x = [Trace 99, Open ''pim_system_tb.vcd''] @ mid @ [Close] \<and>
      count_kind KOpen mid = 0 \<and> count_kind KClose mid = 0 \<and>
      samples mid = samples (calls x) \<and> length (samples mid) = 6 \<and>
      count_kind KOpen (calls x) = 1 \<and> count_kind KClose (calls x) = 1"
    by metis
  moreover from w2 a la have "\<exists>mid. calls a = [Trace 99, Open ''pim_system_tb.vcd''] @ mid \<and>
      count_kind KOpen mid = 0 \<and> samples mid = samples (calls a) \<and>
      length (samples mid) = 3 \<and>
      count_kind KOpen (calls a) = 1 \<and> count_kind KClose (calls a) = 0"
    by metis
  ultimately show ?thesis using x a by blast
qed

text \<open>
  C6, as the spec has it, fails when an evaluation does not return. With a design whose
  second evaluation is fatal the process ends with one sample written and the file still
  open: no \<open>Close\<close> is ever called.
\<close>

theorem sink_left_open_by_fatal_eval:
  "main (fatal_on 2) False False 0 =
     Some (Aborted \<lparr>time = 10, gotFinish = False, clk = False, signals = 1,
       calls = [Trace 99, Open ''pim_system_tb.vcd'',
                TimeInc 5, ClkWrite True, Eval, Dump 5 True 1,
                TimeInc 5, ClkWrite False, Eval]\<rparr>) \<and>
   count_kind KClose [Trace 99, Open ''pim_system_tb.vcd'',
                TimeInc 5, ClkWrite True, Eval, Dump 5 True (1::nat),
                TimeInc 5, ClkWrite False, Eval] = 0"
  by code_simp

subsection \<open>A run of three cycles\<close>

text \<open>
  C7. Let the finish flag be clear when the loop is entered and after the first and the
  second pass through the body, and set after the third. Then \<open>main\<close> returns 0. At the
  half-cycle boundaries the time is 0, 5, 10, 15, 20, 25, 30; six samples are recorded,
  stamped 5 to 30; their clock values alternate, starting with the opposite of the
  initial clock (HIGH, LOW, ... for an initial LOW, and the complement for an initial
  HIGH).
\<close>

theorem three_cycle_scenario:
  assumes "loop_body m (startup False clk0 sig0) = Inr s1" and "\<not> gotFinish s1"
    and "loop_body m s1 = Inr s2" and "\<not> gotFinish s2"
    and "loop_body m s2 = Inr s3" and "gotFinish s3"
  shows "main m False clk0 sig0 = Some (Exited 0 (vcd_close s3)) \<and>
    (\<forall>k\<le>6. \<exists>t. half_cycles m k (startup False clk0 sig0) = Inr t \<and> time t = 5 * k) \<and>
    time (vcd_close s3) = 30 \<and>
    length (samples (calls (vcd_close s3))) = 6 \<and>
    stamps (calls (vcd_close s3)) = [5, 10, 15, 20, 25, 30] \<and>
    clocks (calls (vcd_close s3)) = [\<not> clk0, clk0, \<not> clk0, clk0, \<not> clk0, clk0] \<and>
    (clocks (calls (vcd_close s3)) = [False, True, False, True, False, True] \<or>
     clocks (calls (vcd_close s3)) = [True, False, True, False, True, False])"
proof -
  let ?st = "startup False clk0 sig0"
  have nf: "\<not> gotFinish ?st" by simp
  from sim_loop_three [OF nf assms]
  have m: "main m False clk0 sig0 = Some (Exited 0 (vcd_close s3))"
    by (simp add: main_def)
  from assms(1,3,5) have "cycles m (Suc (Suc (Suc 0))) ?st = Inr s3" by simp
  then have h6: "half_cycles m 6 ?st = Inr s3"
    by (simp add: cycles_half_cycles)
  have steps: "\<forall>k\<le>6. \<exists>t. half_cycles m k ?st = Inr t \<and> time t = 5 * k"
  proof (intro allI impI)
    fix k :: nat assume "k \<le> 6"
    from half_cycles_prefix [OF h6 this] obtain t where t: "half_cycles m k ?st = Inr t" ..
    from half_cycles_time [OF t] t show "\<exists>t. half_cycles m k ?st = Inr t \<and> time t = 5 * k"
      by simp
  qed
  from half_cycles_time [OF h6] have t: "time (vcd_close s3) = 30" by simp
  from run_samples_length [OF h6] have l: "length (samples (calls (vcd_close s3))) = 6"
    by simp
  from run_stamps [OF h6] have s: "stamps (calls (vcd_close s3)) = [5, 10, 15, 20, 25, 30]"
    by (simp add: upt_6)
  from run_clocks [OF h6]
  have c: "clocks (calls (vcd_close s3)) = [\<not> clk0, clk0, \<not> clk0, clk0, \<not> clk0, clk0]"
    by (simp add: upt_6)
  then have "clocks (calls (vcd_close s3)) = [False, True, False, True, False, True] \<or>
     clocks (calls (vcd_close s3)) = [True, False, True, False, True, False]"
    by (cases clk0) simp_all
  with m steps t l s c show ?thesis by blast
qed

theorem three_cycle_scenario_witness:
  "\<exists>s3. main (finish_on 6) False False 0 = Some (Exited 0 (vcd_close s3)) \<and>
    (\<exists>t. half_cycles (finish_on 6) 4 (startup False False 0) = Inr t \<and> time t = 20) \<and>
    time (vcd_close s3) = 30 \<and>
    length (samples (calls (vcd_close s3))) = 6 \<and>
    stamps (calls (vcd_close s3)) = [5, 10, 15, 20, 25, 30] \<and>
    clocks (calls (vcd_close s3)) = [True, False, True, False, True, False]"
proof -
  have "case loop_body (finish_on 6) (startup False False 0) of Inl a \<Rightarrow> False | Inr s1 \<Rightarrow>
          \<not> gotFinish s1 \<and> (case loop_body (finish_on 6) s1 of Inl a \<Rightarrow> False | Inr s2 \<Rightarrow>
          \<not> gotFinish s2 \<and> (case loop_body (finish_on 6) s2 of Inl a \<Rightarrow> False | Inr s3 \<Rightarrow>
          gotFinish s3))"
    by code_simp
  then obtain s1 s2 s3
    where a: "loop_body (finish_on 6) (startup False False 0) = Inr s1" "\<not> gotFinish s1"
      "loop_body (finish_on 6) s1 = Inr s2" "\<not> gotFinish s2"
      "loop_body (finish_on 6) s2 = Inr s3" "gotFinish s3"
    by (auto split: sum.splits)
  note w = three_cycle_scenario [OF a]
  from w have "\<forall>k\<le>6. \<exists>t. half_cycles (finish_on 6) k (startup False False 0) = Inr t \<and>
      time t = 5 * k" by blast
  then have "(4::nat) \<le> 6 \<longrightarrow> (\<exists>t. half_cycles (finish_on 6) 4 (startup False False 0) = Inr t \<and>
      time t = 5 * 4)" by (rule spec)
  then have "\<exists>t. half_cycles (finish_on 6) 4 (startup False False 0) = Inr t \<and> time t = 20"
    by simp
  with w have "main (finish_on 6) False False 0 = Some (Exited 0 (vcd_close s3)) \<and>
    (\<exists>t. half_cycles (finish_on 6) 4 (startup False False 0) = Inr t \<and> time t = 20) \<and>
    time (vcd_close s3) = 30 \<and>
    length (samples (calls (vcd_close s3))) = 6 \<and>
    stamps (calls (vcd_close s3)) = [5, 10, 15, 20, 25, 30] \<and>
    clocks (calls (vcd_close s3)) = [True, False, True, False, True, False]"
    by simp
  then show ?thesis ..
qed

subsection \<open>A flag that is set from the start\<close>

text \<open>
  C8. If the finish flag is already set when the loop is first reached, the body never
  runs: the loop returns the state it was entered in, and \<open>main\<close> returns 0 with the time
  still 0, the clock and the signals as they were, and three calls in its record, the
  trace registration, \<open>Open\<close> and \<open>Close\<close>: no advancement, no clock write, no
  evaluation and no sample.
\<close>

theorem finish_before_first_iteration:
  "sim_loop m (startup True clk0 sig0) = Some (Inr (startup True clk0 sig0)) \<and>
   main m True clk0 sig0 =
     Some (Exited 0 \<lparr>time = 0, gotFinish = True, clk = clk0, signals = sig0,
                     calls = [Trace 99, Open ''pim_system_tb.vcd'', Close]\<rparr>) \<and>
   samples [Trace 99, Open ''pim_system_tb.vcd'', Close :: 'a call] = [] \<and>
   count_kind KOpen [Trace 99, Open ''pim_system_tb.vcd'', Close :: 'a call] = 1 \<and>
   count_kind KClose [Trace 99, Open ''pim_system_tb.vcd'', Close :: 'a call] = 1"
proof -
  have l: "sim_loop m (startup True clk0 sig0) = Some (Inr (startup True clk0 sig0))"
    by (subst sim_loop.simps) simp
  then have "main m True clk0 sig0 =
     Some (Exited 0 \<lparr>time = 0, gotFinish = True, clk = clk0, signals = sig0,
                     calls = [Trace 99, Open ''pim_system_tb.vcd'', Close]\<rparr>)"
    by (simp add: main_def startup_def vcd_open_def vcd_trace_def vcd_close_def)
  with l show ?thesis by simp
qed

subsection \<open>Where the loop can be left\<close>

text \<open>
  C9. The loop test is the only exit, and the body always runs both of its half-cycles:
  when the first half-cycle returns, the second is run whatever the finish flag is by
  then. So the loop is left only in a state reached by a whole number \<open>n\<close> of iterations,
  that is \<open>2 * n\<close> half-cycles; a run that leaves the loop has recorded \<open>2 * n\<close> samples,
  an even number, and its time is \<open>10 * n\<close>, a multiple of 10.
\<close>

theorem exit_only_on_cycle_boundary:
  "(\<forall>t u. half_cycle m s = Inr t \<longrightarrow> half_cycle m t = Inr u \<longrightarrow> loop_body m s = Inr u) \<and>
   (\<forall>s'. sim_loop m s = Some (Inr s') \<longrightarrow>
      (\<exists>n. cycles m n s = Inr s' \<and> half_cycles m (2 * n) s = Inr s')) \<and>
   (\<forall>rc s'. main m fin0 clk0 sig0 = Some (Exited rc s') \<longrightarrow>
      even (length (samples (calls s'))) \<and> 10 dvd time s' \<and>
      (\<exists>n. length (samples (calls s')) = 2 * n \<and> time s' = 10 * n))"
proof (intro conjI allI impI)
  fix t u assume "half_cycle m s = Inr t" and "half_cycle m t = Inr u"
  then show "loop_body m s = Inr u" by (simp add: loop_body_half)
next
  fix s' assume "sim_loop m s = Some (Inr s')"
  from sim_loop_Some [OF this] obtain n where "cycles m n s = Inr s'"
    by (auto simp: stops_at_def)
  then have "cycles m n s = Inr s' \<and> half_cycles m (2 * n) s = Inr s'"
    by (simp add: cycles_half_cycles)
  then show "\<exists>n. cycles m n s = Inr s' \<and> half_cycles m (2 * n) s = Inr s'" ..
next
  fix rc s' assume "main m fin0 clk0 sig0 = Some (Exited rc s')"
  from Exited_halves [OF this] obtain n u
    where h: "half_cycles m (2 * n) (startup fin0 clk0 sig0) = Inr u" and s': "s' = vcd_close u"
    by blast
  from run_samples_length [OF h] half_cycles_time [OF h] s'
  have e: "length (samples (calls s')) = 2 * n \<and> time s' = 10 * n" by simp
  then show "even (length (samples (calls s')))" and "10 dvd time s'" by simp_all
  from e show "\<exists>n. length (samples (calls s')) = 2 * n \<and> time s' = 10 * n" ..
qed

theorem exit_only_on_cycle_boundary_witness:
  "(\<exists>t u. half_cycle (finish_on 1) (startup False False 0) = Inr t \<and> gotFinish t \<and>
      half_cycle (finish_on 1) t = Inr u \<and>
      loop_body (finish_on 1) (startup False False 0) = Inr u) \<and>
   (\<exists>s' n. sim_loop (finish_on 5) (startup False False 0) = Some (Inr s') \<and>
      cycles (finish_on 5) n (startup False False 0) = Inr s' \<and>
      half_cycles (finish_on 5) (2 * n) (startup False False 0) = Inr s') \<and>
   (\<exists>s' n. main (finish_on 5) False False 0 = Some (Exited 0 s') \<and>
      even (length (samples (calls s'))) \<and> 10 dvd time s' \<and>
      length (samples (calls s')) = 2 * n \<and> time s' = 10 * n)"
proof -
  obtain t where t: "half_cycle (finish_on 1) (startup False False 0) = Inr t"
    using finish_on_half by blast
  obtain u where u: "half_cycle (finish_on 1) t = Inr u"
    using finish_on_half by blast
  from half_cycle_Inr(4) [OF t] have ft: "gotFinish t" by (simp add: finish_on_def)
  obtain x where x: "main (finish_on 5) False False 0 = Some (Exited 0 x)"
    using finish_on_5_exits by blast
  then obtain l where l: "sim_loop (finish_on 5) (startup False False 0) = Some (Inr l)"
    by (auto simp: main_def split: option.splits sum.splits)
  note w1 = exit_only_on_cycle_boundary [of "finish_on 1" "startup False False 0" False False 0]
  note w2 = exit_only_on_cycle_boundary [of "finish_on 5" "startup False False 0" False False 0]
  from w1 t u have "loop_body (finish_on 1) (startup False False 0) = Inr u" by blast
  moreover from w2 l have "\<exists>n. cycles (finish_on 5) n (startup False False 0) = Inr l \<and>
      half_cycles (finish_on 5) (2 * n) (startup False False 0) = Inr l" by blast
  moreover from w2 x have "even (length (samples (calls x))) \<and> 10 dvd time x \<and>
      (\<exists>n. length (samples (calls x)) = 2 * n \<and> time x = 10 * n)" by blast
  ultimately show ?thesis using t u ft l x by blast
qed

subsection \<open>The first sample\<close>

text \<open>
  C10. Time is advanced before anything is dumped, so the \<open>i\<close>-th sample of a run
  (counting from 0) is stamped \<open>5 * (i + 1)\<close>. No sample is stamped 0: the first one, when
  there is one, is stamped 5, and every stamp is a positive multiple of 5. This holds at
  every point of a run and however it ends.
\<close>

theorem no_sample_at_time_zero:
  "(\<forall>s'. half_cycles m n (startup fin0 clk0 sig0) = Inr s' \<longrightarrow>
      stamps (calls s') = map (\<lambda>i. 5 * Suc i) [0..<n] \<and>
      (\<forall>t \<in> set (stamps (calls s')). 0 < t \<and> 5 dvd t) \<and>
      (stamps (calls s') \<noteq> [] \<longrightarrow> hd (stamps (calls s')) = 5)) \<and>
   (\<forall>rc s'. main m fin0 clk0 sig0 = Some (Exited rc s') \<longrightarrow>
      (\<forall>t \<in> set (stamps (calls s')). 0 < t \<and> 5 dvd t) \<and>
      (stamps (calls s') \<noteq> [] \<longrightarrow> hd (stamps (calls s')) = 5)) \<and>
   (\<forall>a. main m fin0 clk0 sig0 = Some (Aborted a) \<longrightarrow>
      (\<forall>t \<in> set (stamps (calls a)). 0 < t \<and> 5 dvd t) \<and>
      (stamps (calls a) \<noteq> [] \<longrightarrow> hd (stamps (calls a)) = 5))"
proof -
  have run: "stamps (calls s') = map (\<lambda>i. 5 * Suc i) [0..<k] \<and>
      (\<forall>t \<in> set (stamps (calls s')). 0 < t \<and> 5 dvd t) \<and>
      (stamps (calls s') \<noteq> [] \<longrightarrow> hd (stamps (calls s')) = 5)"
    if h: "half_cycles m k (startup fin0 clk0 sig0) = Inr s'" for k s'
    using run_stamps [OF h] stamps_upt_facts [of k] by simp
  show ?thesis
  proof (intro conjI allI impI)
    fix s' assume h: "half_cycles m n (startup fin0 clk0 sig0) = Inr s'"
    from run [OF h] show "stamps (calls s') = map (\<lambda>i. 5 * Suc i) [0..<n]"
      and "\<forall>t \<in> set (stamps (calls s')). 0 < t \<and> 5 dvd t" by blast+
    assume "stamps (calls s') \<noteq> []"
    with run [OF h] show "hd (stamps (calls s')) = 5" by blast
  next
    fix rc s' assume "main m fin0 clk0 sig0 = Some (Exited rc s')"
    from Exited_halves [OF this] obtain k u
      where h: "half_cycles m (2 * k) (startup fin0 clk0 sig0) = Inr u" and s': "s' = vcd_close u"
      by blast
    from s' have e: "stamps (calls s') = stamps (calls u)" by simp
    from run [OF h] show "\<forall>t \<in> set (stamps (calls s')). 0 < t \<and> 5 dvd t"
      unfolding e by blast
    assume "stamps (calls s') \<noteq> []"
    with run [OF h] show "hd (stamps (calls s')) = 5" unfolding e by blast
  next
    fix a assume "main m fin0 clk0 sig0 = Some (Aborted a)"
    from main_Aborted [OF this] obtain k u
      where h: "half_cycles m k (startup fin0 clk0 sig0) = Inr u" and a: "half_cycle m u = Inl a"
      by blast
    note e = Aborted_clocks_stamps(2) [OF a]
    from run [OF h] show "\<forall>t \<in> set (stamps (calls a)). 0 < t \<and> 5 dvd t"
      unfolding e by blast
    assume "stamps (calls a) \<noteq> []"
    with run [OF h] show "hd (stamps (calls a)) = 5" unfolding e by blast
  qed
qed

theorem no_sample_at_time_zero_witness:
  "(\<exists>s'. half_cycles (finish_on 6) 3 (startup False False 0) = Inr s' \<and>
      stamps (calls s') = [5, 10, 15] \<and> hd (stamps (calls s')) = 5 \<and>
      15 \<in> set (stamps (calls s')) \<and> (0::nat) < 15 \<and> (5::nat) dvd 15) \<and>
   (\<exists>s'. main (finish_on 6) False False 0 = Some (Exited 0 s') \<and>
      stamps (calls s') \<noteq> [] \<and> hd (stamps (calls s')) = 5 \<and>
      0 < last (stamps (calls s')) \<and> 5 dvd last (stamps (calls s'))) \<and>
   (\<exists>a. main (fatal_on 4) False False 0 = Some (Aborted a) \<and>
      stamps (calls a) \<noteq> [] \<and> hd (stamps (calls a)) = 5 \<and>
      0 < last (stamps (calls a)) \<and> 5 dvd last (stamps (calls a)))"
proof -
  obtain h where h: "half_cycles (finish_on 6) 3 (startup False False 0) = Inr h"
    using finish_on_halves by blast
  obtain x where x: "main (finish_on 6) False False 0 = Some (Exited 0 x)"
    and lx: "length (samples (calls x)) = 6"
    using finish_on_6_exits by blast
  obtain a where a: "main (fatal_on 4) False False 0 = Some (Aborted a)"
    and la: "length (samples (calls a)) = 3"
    using fatal_on_4_aborts by blast
  from lx have nx: "stamps (calls x) \<noteq> []" by (auto simp: stamps_def)
  from la have na: "stamps (calls a) \<noteq> []" by (auto simp: stamps_def)
  note w1 = no_sample_at_time_zero [of "finish_on 6" 3 False False 0]
  note w2 = no_sample_at_time_zero [of "fatal_on 4" 0 False False 0]
  from w1 h have hs: "stamps (calls h) = map (\<lambda>i. 5 * Suc i) [0..<3]"
    and hp: "\<forall>t \<in> set (stamps (calls h)). 0 < t \<and> 5 dvd t"
    and hh: "stamps (calls h) \<noteq> [] \<longrightarrow> hd (stamps (calls h)) = 5"
    by blast+
  from hs have hl: "stamps (calls h) = [5, 10, 15]" by (simp add: upt_rec)
  with hh have h5: "hd (stamps (calls h)) = 5" by simp
  from hl have h15: "15 \<in> set (stamps (calls h))" by simp
  with hp have "(0::nat) < 15 \<and> (5::nat) dvd 15" by blast
  with hl h5 h15 h have p1: "\<exists>s'. half_cycles (finish_on 6) 3 (startup False False 0) = Inr s' \<and>
      stamps (calls s') = [5, 10, 15] \<and> hd (stamps (calls s')) = 5 \<and>
      15 \<in> set (stamps (calls s')) \<and> (0::nat) < 15 \<and> (5::nat) dvd 15" by blast
  from w1 x have xp: "\<forall>t \<in> set (stamps (calls x)). 0 < t \<and> 5 dvd t"
    and xh: "stamps (calls x) \<noteq> [] \<longrightarrow> hd (stamps (calls x)) = 5"
    by blast+
  from nx have "last (stamps (calls x)) \<in> set (stamps (calls x))" by (rule last_in_set)
  with xp xh nx x have p2: "\<exists>s'. main (finish_on 6) False False 0 = Some (Exited 0 s') \<and>
      stamps (calls s') \<noteq> [] \<and> hd (stamps (calls s')) = 5 \<and>
      0 < last (stamps (calls s')) \<and> 5 dvd last (stamps (calls s'))" by blast
  from w2 a have ap: "\<forall>t \<in> set (stamps (calls a)). 0 < t \<and> 5 dvd t"
    and ah: "stamps (calls a) \<noteq> [] \<longrightarrow> hd (stamps (calls a)) = 5"
    by blast+
  from na have "last (stamps (calls a)) \<in> set (stamps (calls a))" by (rule last_in_set)
  with ap ah na a have p3: "\<exists>a. main (fatal_on 4) False False 0 = Some (Aborted a) \<and>
      stamps (calls a) \<noteq> [] \<and> hd (stamps (calls a)) = 5 \<and>
      0 < last (stamps (calls a)) \<and> 5 dvd last (stamps (calls a))" by blast
  from p1 p2 p3 show ?thesis by blast
qed

end
